theory Spec2Isabelle
  imports Main "HOL-Library.Char_ord" "HOL-Library.List_Lexorder"
begin

section \<open>Data model of \<open>distributed_config.py\<close>\<close>

text \<open>
  The store of \<open>DistributedConfig\<close> is three SQLite tables (\<open>kv_entries\<close>, \<open>leases\<close>,
  \<open>revisions\<close>) and two counters kept in the Python object (\<open>self.revision\<close>,
  \<open>self.compacted_rev\<close>). A table is the list of its rows in insertion order. Python
  integers are \<open>int\<close>. A \<open>datetime\<close> is an abstract instant (\<open>int\<close>); the reading of
  \<open>datetime.utcnow()\<close> is the field \<open>clock\<close> of the state. The JSON text
  \<open>{"version": v}\<close> of a put's log record is represented by \<open>Some v\<close>, the SQL NULL of a
  delete's log record by \<open>None\<close>; the JSON array of a lease's keys is the list itself.

  The calls are taken one after the other, as the lock of the object orders them. A
  \<open>with\<close> block over a connection commits when it is left normally and rolls back when
  an exception leaves it; the counters of the Python object are not part of any
  transaction. A connection holds the write lock of the database file from its first
  insert or update to its commit or rollback; a second connection can read meanwhile
  and cannot write.
\<close>

type_synonym instant = int

record KVEntry =
  key :: string
  val :: string
  version :: int
  create_revision :: int
  mod_revision :: int
  lease_id :: "string option"
  created_at :: instant
  modified_at :: instant

text \<open>A row of \<open>kv_entries\<close>: the columns of a \<open>KVEntry\<close> and the flag \<open>deleted\<close>.\<close>

record kv_row = KVEntry +
  deleted :: int

record Lease =
  ident :: string
  ttl_s :: int
  granted_at :: instant
  expires_at :: instant
  keys :: "string list"

text \<open>A row of \<open>revisions\<close>.\<close>

record log_row =
  log_revision :: int
  log_timestamp :: instant
  log_operation :: string
  log_key :: string
  log_details :: "int option"

record store =
  revision :: int
  compacted_rev :: int
  kv_entries :: "kv_row list"
  leases :: "Lease list"
  revisions :: "log_row list"
  clock :: instant

text \<open>
  The exceptions the operations can raise. \<open>IntegrityError\<close>: an insert repeats a
  primary key (\<open>(key, mod_revision)\<close> in \<open>kv_entries\<close>, \<open>revision\<close> in \<open>revisions\<close>, \<open>id\<close>
  in \<open>leases\<close>). \<open>OperationalError\<close>: a statement names a column its table does not have,
  or a connection writes while another connection holds an open write transaction
  (\<open>database is locked\<close>, after the timeout of the connection). \<open>OverflowError\<close>: an
  integer bound to a statement lies outside the signed 64-bit integers of SQLite.
\<close>

datatype error = IntegrityError | OperationalError | OverflowError

definition sqlite_int :: "int \<Rightarrow> bool" where
  "sqlite_int n \<longleftrightarrow> - (2 ^ 63) \<le> n \<and> n < 2 ^ 63"

text \<open>
  \<open>__init__\<close> opens the database directory it is given and resets both counters; the
  tables are created only if absent, so their rows survive.
\<close>

definition init :: "store \<Rightarrow> store" where
  "init db = db\<lparr>revision := 0, compacted_rev := 0\<rparr>"

definition empty_store :: store where
  "empty_store = \<lparr>revision = 0, compacted_rev = 0, kv_entries = [], leases = [],
     revisions = [], clock = 0\<rparr>"

text \<open>Truth value of an optional string argument (\<open>if lease_id:\<close>, \<open>if range_end:\<close>).\<close>

fun truthy :: "string option \<Rightarrow> bool" where
  "truthy None = False"
| "truthy (Some s) = (s \<noteq> [])"

section \<open>Core operations\<close>

text \<open>\<open>ORDER BY mod_revision DESC LIMIT 1\<close>: the row of greatest \<open>mod_revision\<close>.\<close>

fun latest :: "kv_row list \<Rightarrow> kv_row option" where
  "latest [] = None"
| "latest (r # rs) =
     (case latest rs of
        None \<Rightarrow> Some r
      | Some r' \<Rightarrow> if mod_revision r < mod_revision r' then Some r' else Some r)"

definition live_rows :: "store \<Rightarrow> string \<Rightarrow> kv_row list" where
  "live_rows st k = filter (\<lambda>r. key r = k \<and> deleted r = 0) (kv_entries st)"

text \<open>\<open>get\<close>, for a revision SQLite can hold (\<open>sqlite_int\<close>); a revision beyond is
  refused by the binding before any row is read.\<close>

definition get :: "store \<Rightarrow> string \<Rightarrow> int option \<Rightarrow> KVEntry option" where
  "get st k at_rev =
     (case at_rev of
        None \<Rightarrow> map_option KVEntry.truncate (latest (live_rows st k))
      | Some R \<Rightarrow>
          map_option KVEntry.truncate
            (latest (filter (\<lambda>r. mod_revision r \<le> R) (live_rows st k))))"

text \<open>
  \<open>_add_key_to_lease\<close>, on a connection of its own: read the key list of the lease and,
  unless the lease row is missing or the key is already in the list, write the list
  with the key appended. \<open>locked\<close> says that another connection holds the write lock:
  the read goes through, the write raises \<open>OperationalError\<close>.
\<close>

definition add_key_to_lease ::
  "bool \<Rightarrow> store \<Rightarrow> string \<Rightarrow> string \<Rightarrow> store \<times> (error + unit)" where
  "add_key_to_lease locked st lid k =
     (case find (\<lambda>l. ident l = lid) (leases st) of
        None \<Rightarrow> (st, Inr ())
      | Some row \<Rightarrow>
          if k \<in> set (keys row) then (st, Inr ())
          else if locked then (st, Inl OperationalError)
          else (st\<lparr>leases := map (\<lambda>l. if ident l = lid then l\<lparr>keys := keys row @ [k]\<rparr>
                                        else l) (leases st)\<rparr>, Inr ()))"

text \<open>
  \<open>put\<close>. The counter is incremented in memory before the two inserts; an
  \<open>IntegrityError\<close> leaves the \<open>with\<close> block, which rolls the transaction back, and the
  counter keeps its new value. \<open>_add_key_to_lease\<close> is called after the inserts and
  before the commit, so its connection finds the database locked by the transaction
  of \<open>put\<close>; its exception rolls that transaction back as well.
\<close>

definition put :: "store \<Rightarrow> string \<Rightarrow> string \<Rightarrow> string option \<Rightarrow> store \<times> (error + int)" where
  "put st k v lease =
     (let ver = (case latest (live_rows st k) of None \<Rightarrow> 0 | Some r \<Rightarrow> version r) + 1;
          new_rev = revision st + 1;
          now = clock st;
          st1 = st\<lparr>revision := new_rev\<rparr>
      in if \<exists>r \<in> set (kv_entries st). key r = k \<and> mod_revision r = new_rev
         then (st1, Inl IntegrityError)
         else if \<exists>l \<in> set (revisions st). log_revision l = new_rev
         then (st1, Inl IntegrityError)
         else
           let st2 = st1\<lparr>kv_entries := kv_entries st @
                        [\<lparr>key = k, val = v, version = ver, create_revision = new_rev,
                          mod_revision = new_rev, lease_id = lease, created_at = now,
                          modified_at = now, deleted = 0\<rparr>],
                      revisions := revisions st @
                        [\<lparr>log_revision = new_rev, log_timestamp = now, log_operation = ''put'',
                          log_key = k, log_details = Some ver\<rparr>]\<rparr>;
               bound = (case lease of
                          Some lid \<Rightarrow>
                            if truthy lease then add_key_to_lease True st2 lid k
                            else (st2, Inr ())
                        | None \<Rightarrow> (st2, Inr ()))
           in case bound of
                (st3, Inl e) \<Rightarrow> (st1, Inl e)
              | (st3, Inr _) \<Rightarrow> (st3, Inr new_rev))"

text \<open>
  The loop of \<open>delete\<close> over the selected keys, on the two tables of the open
  transaction: flag every row of the key, then insert one log record at the revision of
  the whole call.
\<close>

fun delete_rows ::
  "int \<Rightarrow> instant \<Rightarrow> string list \<Rightarrow> kv_row list \<times> log_row list \<Rightarrow>
     error + (kv_row list \<times> log_row list)" where
  "delete_rows n now [] db = Inr db"
| "delete_rows n now (k # ks) (kvs, logs) =
     (if \<exists>l \<in> set logs. log_revision l = n then Inl IntegrityError
      else delete_rows n now ks
             (map (\<lambda>r. if key r = k then r\<lparr>deleted := 1\<rparr> else r) kvs,
              logs @ [\<lparr>log_revision = n, log_timestamp = now, log_operation = ''delete'',
                       log_key = k, log_details = None\<rparr>]))"

definition delete :: "store \<Rightarrow> string \<Rightarrow> string option \<Rightarrow> store \<times> (error + int)" where
  "delete st k range_end =
     (let new_rev = revision st + 1;
          st1 = st\<lparr>revision := new_rev\<rparr>;
          rows = (case range_end of
                    Some e \<Rightarrow>
                      if truthy range_end
                      then map key (filter (\<lambda>r. k \<le> key r \<and> key r < e \<and> deleted r = 0)
                                      (kv_entries st))
                      else [k]
                  | None \<Rightarrow> [k])
      in case delete_rows new_rev (clock st) rows (kv_entries st, revisions st) of
           Inl e \<Rightarrow> (st1, Inl e)
         | Inr (kvs, logs) \<Rightarrow> (st1\<lparr>kv_entries := kvs, revisions := logs\<rparr>, Inr new_rev))"

text \<open>
  The SQL operator \<open>LIKE\<close> as SQLite evaluates it, pattern first: \<open>%\<close> stands for any
  run of characters, \<open>_\<close> for any one character, and every other character for itself,
  the ASCII letters without regard to case. No statement of the source gives an
  \<open>ESCAPE\<close> character.
\<close>

definition ascii_lower :: "char \<Rightarrow> char" where
  "ascii_lower c =
     (if CHR ''A'' \<le> c \<and> c \<le> CHR ''Z'' then char_of (of_char c + (32::nat)) else c)"

fun like :: "string \<Rightarrow> string \<Rightarrow> bool" where
  "like [] [] = True"
| "like [] (c # cs) = False"
| "like (p # ps) [] = (p = CHR ''%'' \<and> like ps [])"
| "like (p # ps) (c # cs) =
     (if p = CHR ''%'' then like ps (c # cs) \<or> like (p # ps) cs
      else (p = CHR ''_'' \<or> ascii_lower p = ascii_lower c) \<and> like ps cs)"

text \<open>
  \<open>get_prefix\<close>: every row that is not flagged and whose key is \<open>LIKE\<close> the prefix
  followed by \<open>%\<close>, ordered by key. SQL leaves the order of rows of equal key open; the
  model keeps their insertion order.
\<close>

definition get_prefix :: "store \<Rightarrow> string \<Rightarrow> KVEntry list" where
  "get_prefix st prefix =
     map KVEntry.truncate
       (sort_key key
          (filter (\<lambda>r. like (prefix @ ''%'') (key r) \<and> deleted r = 0) (kv_entries st)))"

text \<open>\<open>list_revision_history\<close>, for a limit SQLite can hold; a negative \<open>LIMIT\<close> is no
  limit in SQLite.\<close>

definition list_revision_history :: "store \<Rightarrow> string \<Rightarrow> int \<Rightarrow> KVEntry list" where
  "list_revision_history st k limit =
     (let rows = rev (sort_key mod_revision (filter (\<lambda>r. key r = k) (kv_entries st)))
      in map KVEntry.truncate (if limit < 0 then rows else take (nat limit) rows))"

text \<open>
  \<open>compact\<close>. The revision is bound to the \<open>DELETE\<close> statement first: outside the
  integers of SQLite the binding raises \<open>OverflowError\<close>, before any row is deleted and
  before \<open>self.compacted_rev\<close> is assigned.
\<close>

definition compact :: "store \<Rightarrow> int \<Rightarrow> store \<times> (error + unit)" where
  "compact st r =
     (if sqlite_int r
      then (st\<lparr>revisions := filter (\<lambda>l. \<not> log_revision l \<le> r) (revisions st),
               compacted_rev := max (compacted_rev st) r\<rparr>, Inr ())
      else (st, Inl OverflowError))"

section \<open>Leases\<close>

text \<open>\<open>grant_lease\<close>; the identifier drawn from \<open>uuid4\<close> is an argument. Instants are
  unbounded here: a time-to-live that leads \<open>datetime\<close> out of its range of years is
  not told apart.\<close>

definition grant_lease :: "store \<Rightarrow> string \<Rightarrow> int \<Rightarrow> store \<times> (error + string)" where
  "grant_lease st lid ttl =
     (if \<exists>l \<in> set (leases st). ident l = lid then (st, Inl IntegrityError)
      else (st\<lparr>leases := leases st @
                 [\<lparr>ident = lid, ttl_s = ttl, granted_at = clock st,
                   expires_at = clock st + ttl, keys = []\<rparr>]\<rparr>, Inr lid))"

definition keepalive :: "store \<Rightarrow> string \<Rightarrow> store \<times> bool" where
  "keepalive st lid =
     (case find (\<lambda>l. ident l = lid) (leases st) of
        None \<Rightarrow> (st, False)
      | Some row \<Rightarrow>
          (st\<lparr>leases := map (\<lambda>l. if ident l = lid then l\<lparr>expires_at := clock st + ttl_s row\<rparr>
                                   else l) (leases st)\<rparr>, True))"

text \<open>\<open>revoke_lease\<close>: one \<open>delete\<close> call per key of the lease, each a transaction of
  its own, then the lease row is removed.\<close>

fun revoke_keys :: "store \<Rightarrow> string list \<Rightarrow> store \<times> (error + unit)" where
  "revoke_keys st [] = (st, Inr ())"
| "revoke_keys st (k # ks) =
     (case delete st k None of
        (st', Inl e) \<Rightarrow> (st', Inl e)
      | (st', Inr _) \<Rightarrow> revoke_keys st' ks)"

definition revoke_lease :: "store \<Rightarrow> string \<Rightarrow> store \<times> (error + unit)" where
  "revoke_lease st lid =
     (case revoke_keys st (case find (\<lambda>l. ident l = lid) (leases st) of
                             None \<Rightarrow> [] | Some row \<Rightarrow> keys row) of
        (st', Inl e) \<Rightarrow> (st', Inl e)
      | (st', Inr _) \<Rightarrow> (st'\<lparr>leases := filter (\<lambda>l. ident l \<noteq> lid) (leases st')\<rparr>, Inr ()))"

section \<open>Transactions\<close>

type_synonym clause = "string \<times> string \<times> string"

text \<open>One round of the loop over the compare clauses.\<close>

definition compare_step :: "store \<Rightarrow> bool \<Rightarrow> clause \<Rightarrow> bool" where
  "compare_step st passed c =
     (case c of (k, op, v) \<Rightarrow>
        (case get st k None of
           None \<Rightarrow> if op = ''=='' then False else passed
         | Some entry \<Rightarrow>
             if op = ''=='' \<and> val entry \<noteq> v then False
             else if op = ''!='' \<and> val entry = v then False
             else passed))"

text \<open>The loop over the chosen operations; an exception of \<open>put\<close> or \<open>delete\<close> ends
  the transaction where it stands.\<close>

fun txn_apply ::
  "store \<Rightarrow> clause list \<Rightarrow> (string \<times> int) list \<Rightarrow> store \<times> (error + (string \<times> int) list)" where
  "txn_apply st [] results = (st, Inr results)"
| "txn_apply st ((op_type, k, v) # ops) results =
     (if op_type = ''put'' then
        (case put st k v None of
           (st', Inl e) \<Rightarrow> (st', Inl e)
         | (st', Inr r) \<Rightarrow> txn_apply st' ops (results @ [(k, r)]))
      else if op_type = ''delete'' then
        (case delete st k None of
           (st', Inl e) \<Rightarrow> (st', Inl e)
         | (st', Inr r) \<Rightarrow> txn_apply st' ops (results @ [(k, r)]))
      else txn_apply st ops results)"

definition txn ::
  "store \<Rightarrow> clause list \<Rightarrow> clause list \<Rightarrow> clause list option \<Rightarrow>
     store \<times> (error + bool \<times> (string \<times> int) list)" where
  "txn st compare success_ops failure_ops =
     (let passed = foldl (compare_step st) True compare;
          ops = (if passed then success_ops
                 else (case failure_ops of None \<Rightarrow> [] | Some f \<Rightarrow> f))
      in case txn_apply st ops [] of
           (st', Inl e) \<Rightarrow> (st', Inl e)
         | (st', Inr results) \<Rightarrow> (st', Inr (passed, results)))"

section \<open>Watches\<close>

text \<open>
  A cell of a result row. The polling loop of \<open>watch\<close> stores a cell of its last row in
  \<open>watch.last_revision\<close>, so that field holds a cell too.
\<close>

datatype sqlval = SqlNull | SqlInt int | SqlText string

record Watch =
  key_prefix :: string
  last_revision :: sqlval

text \<open>The columns of \<open>revisions\<close>, as \<open>_init_db\<close> creates the table.\<close>

definition revisions_column :: "string \<Rightarrow> (log_row \<Rightarrow> sqlval) option" where
  "revisions_column c =
     (if c = ''revision'' then Some (\<lambda>l. SqlInt (log_revision l))
      else if c = ''timestamp'' then Some (\<lambda>l. SqlInt (log_timestamp l))
      else if c = ''operation'' then Some (\<lambda>l. SqlText (log_operation l))
      else if c = ''key'' then Some (\<lambda>l. SqlText (log_key l))
      else if c = ''details'' then
        Some (\<lambda>l. case log_details l of None \<Rightarrow> SqlNull | Some v \<Rightarrow> SqlInt v)
      else None)"

text \<open>A \<open>SELECT\<close> of three columns of \<open>revisions\<close>: a name that is no column of the
  table is an \<open>OperationalError\<close>, whatever the rows.\<close>

definition select3 ::
  "string \<Rightarrow> string \<Rightarrow> string \<Rightarrow> log_row list \<Rightarrow> error + (sqlval \<times> sqlval \<times> sqlval) list" where
  "select3 c1 c2 c3 rows =
     (case (revisions_column c1, revisions_column c2, revisions_column c3) of
        (Some f1, Some f2, Some f3) \<Rightarrow> Inr (map (\<lambda>l. (f1 l, f2 l, f3 l)) rows)
      | _ \<Rightarrow> Inl OperationalError)"

text \<open>\<open>r.revision > ?\<close> on the integer column: a text parameter is greater than every
  integer, a NULL compares with nothing.\<close>

fun revision_gt :: "int \<Rightarrow> sqlval \<Rightarrow> bool" where
  "revision_gt r (SqlInt n) = (n < r)"
| "revision_gt r (SqlText t) = False"
| "revision_gt r SqlNull = False"

text \<open>Truth value of a cell in Python (\<open>row[1] if row[1] else ""\<close>).\<close>

fun cell_truthy :: "sqlval \<Rightarrow> bool" where
  "cell_truthy SqlNull = False"
| "cell_truthy (SqlInt n) = (n \<noteq> 0)"
| "cell_truthy (SqlText t) = (t \<noteq> [])"

text \<open>\<open>watch\<close> registers the subscription at the current revision.\<close>

definition watch :: "store \<Rightarrow> string \<Rightarrow> Watch" where
  "watch st prefix = \<lparr>key_prefix = prefix, last_revision = SqlInt (revision st)\<rparr>"

text \<open>
  One round of \<open>poll_changes\<close> after its sleep: the query, then the callback on every
  row in turn (the result lists the calls as \<open>(event_type, key, value)\<close>), then the
  update of \<open>watch.last_revision\<close>. An exception ends the polling thread.
\<close>

definition poll_changes ::
  "store \<Rightarrow> Watch \<Rightarrow> error + (sqlval \<times> sqlval \<times> sqlval) list \<times> Watch" where
  "poll_changes st w =
     (case select3 ''key'' ''value'' ''operation''
             (sort_key log_revision
                (filter (\<lambda>l. like (key_prefix w @ ''%'') (log_key l) \<and>
                              revision_gt (log_revision l) (last_revision w))
                   (revisions st))) of
        Inl e \<Rightarrow> Inl e
      | Inr rows \<Rightarrow>
          Inr (map (\<lambda>(c0, c1, c2). (c2, c0, if cell_truthy c1 then c1 else SqlText [])) rows,
               if rows \<noteq> [] then w\<lparr>last_revision := snd (snd (last rows))\<rparr> else w))"

section \<open>Histories of calls\<close>

text \<open>The calls that change the state (\<open>_add_key_to_lease\<close> called on its own
  among them), the passing of time and the restart of the process on the same database;
  the lease sweeper is a \<open>RevokeLease\<close> at a time of its choosing.\<close>

datatype call =
    Put string string "string option"
  | Delete string "string option"
  | Txn "clause list" "clause list" "clause list option"
  | Compact int
  | GrantLease string int
  | Keepalive string
  | RevokeLease string
  | AddKeyToLease string string
  | Tick instant
  | Restart

fun exec :: "store \<Rightarrow> call \<Rightarrow> store" where
  "exec st (Put k v lease) = fst (put st k v lease)"
| "exec st (Delete k range_end) = fst (delete st k range_end)"
| "exec st (Txn compare success_ops failure_ops) = fst (txn st compare success_ops failure_ops)"
| "exec st (Compact r) = fst (compact st r)"
| "exec st (GrantLease lid ttl) = fst (grant_lease st lid ttl)"
| "exec st (Keepalive lid) = fst (keepalive st lid)"
| "exec st (RevokeLease lid) = fst (revoke_lease st lid)"
| "exec st (AddKeyToLease lid k) = fst (add_key_to_lease False st lid k)"
| "exec st (Tick t) = st\<lparr>clock := t\<rparr>"
| "exec st Restart = init st"

definition run :: "call list \<Rightarrow> store" where
  "run cs = foldl exec (init empty_store) cs"

text \<open>A history in which every \<open>compact(r)\<close> is called with \<open>r\<close> at most the revision of
  the moment.\<close>

fun compacts_within :: "store \<Rightarrow> call list \<Rightarrow> bool" where
  "compacts_within st [] = True"
| "compacts_within st (c # cs) =
     ((case c of Compact r \<Rightarrow> r \<le> revision st | _ \<Rightarrow> True) \<and>
      compacts_within (exec st c) cs)"

section \<open>Properties the operations keep\<close>

text \<open>
  The counter is ahead of the tables: no stored row carries a revision beyond
  \<open>self.revision\<close>. It holds for a process started on an empty database and is kept by
  every call; a restart on a database that has rows breaks it.
\<close>

definition counter_ahead :: "store \<Rightarrow> bool" where
  "counter_ahead st \<longleftrightarrow>
     (\<forall>r \<in> set (kv_entries st). mod_revision r \<le> revision st) \<and>
     (\<forall>l \<in> set (revisions st). log_revision l \<le> revision st)"

definition rows_created_at_mod :: "store \<Rightarrow> bool" where
  "rows_created_at_mod st \<longleftrightarrow>
     (\<forall>r \<in> set (kv_entries st). create_revision r = mod_revision r)"

definition lease_keys_distinct :: "store \<Rightarrow> bool" where
  "lease_keys_distinct st \<longleftrightarrow> (\<forall>l \<in> set (leases st). distinct (keys l))"

text \<open>The row and the log record a \<open>put\<close> inserts, and the state it commits.\<close>

definition put_row :: "store \<Rightarrow> string \<Rightarrow> string \<Rightarrow> string option \<Rightarrow> kv_row" where
  "put_row st k v lease =
     \<lparr>key = k, val = v,
      version = (case latest (live_rows st k) of None \<Rightarrow> 0 | Some r \<Rightarrow> version r) + 1,
      create_revision = revision st + 1, mod_revision = revision st + 1, lease_id = lease,
      created_at = clock st, modified_at = clock st, deleted = 0\<rparr>"

definition put_log :: "store \<Rightarrow> string \<Rightarrow> log_row" where
  "put_log st k =
     \<lparr>log_revision = revision st + 1, log_timestamp = clock st, log_operation = ''put'',
      log_key = k,
      log_details =
        Some ((case latest (live_rows st k) of None \<Rightarrow> 0 | Some r \<Rightarrow> version r) + 1)\<rparr>"

definition put_done :: "store \<Rightarrow> string \<Rightarrow> string \<Rightarrow> string option \<Rightarrow> store" where
  "put_done st k v lease =
     st\<lparr>revision := revision st + 1,
        kv_entries := kv_entries st @ [put_row st k v lease],
        revisions := revisions st @ [put_log st k]\<rparr>"

section \<open>The transaction as the specification words it\<close>




section \<open>What each operation keeps\<close>

lemma add_key_locked_fst: "fst (add_key_to_lease True st lid k) = st"
  by (simp add: add_key_to_lease_def split: option.splits)

lemma add_key_locked_snd:
  "snd (add_key_to_lease True st lid k) = Inr () \<or>
   snd (add_key_to_lease True st lid k) = Inl OperationalError"
  by (simp add: add_key_to_lease_def split: option.splits)

lemma add_key_locked_cases:
  "add_key_to_lease True st lid k = (st, Inr ()) \<or>
   add_key_to_lease True st lid k = (st, Inl OperationalError)"
  using add_key_locked_fst [of st lid k] add_key_locked_snd [of st lid k]
  by (cases "add_key_to_lease True st lid k") auto

lemma put_cases:
  "put st k v lease = (st\<lparr>revision := revision st + 1\<rparr>, Inl IntegrityError) \<or>
   put st k v lease = (st\<lparr>revision := revision st + 1\<rparr>, Inl OperationalError) \<or>
   put st k v lease = (put_done st k v lease, Inr (revision st + 1))"
proof (cases lease)
  case None
  then show ?thesis
    by (simp add: put_def Let_def put_done_def put_row_def put_log_def)
next
  case (Some lid)
  let ?st2 = "put_done st k v lease"
  from add_key_locked_cases [of ?st2 lid k] show ?thesis
  proof
    assume "add_key_to_lease True ?st2 lid k = (?st2, Inr ())"
    then show ?thesis
      by (simp add: put_def Let_def put_done_def put_row_def put_log_def Some)
  next
    assume "add_key_to_lease True ?st2 lid k = (?st2, Inl OperationalError)"
    then show ?thesis
      by (simp add: put_def Let_def put_done_def put_row_def put_log_def Some)
  qed
qed

lemma put_returns:
  assumes "snd (put st k v lease) = Inr r"
  shows "put st k v lease = (put_done st k v lease, Inr (revision st + 1))"
    and "r = revision st + 1"
  using assms put_cases [of st k v lease] by auto

lemma put_revision: "revision (fst (put st k v lease)) = revision st + 1"
  using put_cases [of st k v lease] by (auto simp: put_done_def)

lemma put_compacted_rev: "compacted_rev (fst (put st k v lease)) = compacted_rev st"
  using put_cases [of st k v lease] by (auto simp: put_done_def)

lemma put_leases: "leases (fst (put st k v lease)) = leases st"
  using put_cases [of st k v lease] by (auto simp: put_done_def)

lemma put_None_ahead:
  assumes "counter_ahead st"
  shows "put st k v None = (put_done st k v None, Inr (revision st + 1))"
proof -
  have "\<not> (\<exists>r \<in> set (kv_entries st). key r = k \<and> mod_revision r = revision st + 1)"
    using assms by (fastforce simp: counter_ahead_def)
  moreover have "\<not> (\<exists>l \<in> set (revisions st). log_revision l = revision st + 1)"
    using assms by (fastforce simp: counter_ahead_def)
  ultimately show ?thesis
    by (simp add: put_def Let_def put_done_def put_row_def put_log_def)
qed

lemma put_done_counter_ahead:
  "counter_ahead st \<Longrightarrow> counter_ahead (put_done st k v lease)"
  by (fastforce simp: counter_ahead_def put_done_def put_row_def put_log_def)

lemma bump_counter_ahead:
  "counter_ahead st \<Longrightarrow> counter_ahead (st\<lparr>revision := revision st + 1\<rparr>)"
  by (fastforce simp: counter_ahead_def)

lemma put_counter_ahead:
  assumes "counter_ahead st"
  shows "counter_ahead (fst (put st k v lease))"
  using put_cases [of st k v lease] put_done_counter_ahead [OF assms, of k v lease]
    bump_counter_ahead [OF assms]
  by auto

lemma delete_revision: "revision (fst (delete st k range_end)) = revision st + 1"
  by (simp add: delete_def Let_def split: option.splits sum.splits prod.splits)

lemma delete_single_ahead:
  "counter_ahead st \<Longrightarrow>
   delete st k None =
     (st\<lparr>revision := revision st + 1,
         kv_entries := map (\<lambda>r. if key r = k then r\<lparr>deleted := 1\<rparr> else r) (kv_entries st),
         revisions := revisions st @
           [\<lparr>log_revision = revision st + 1, log_timestamp = clock st,
             log_operation = ''delete'', log_key = k, log_details = None\<rparr>]\<rparr>,
      Inr (revision st + 1))"
  by (fastforce simp: delete_def Let_def counter_ahead_def)

lemma delete_rows_kv:
  "delete_rows n now ks (kvs, logs) = Inr (kvs', logs') \<Longrightarrow>
   length kvs' = length kvs \<and>
   (\<forall>r' \<in> set kvs'. \<exists>r \<in> set kvs. r' = r \<or> r' = r\<lparr>deleted := 1\<rparr>)"
proof (induction ks arbitrary: kvs logs)
  case Nil
  then show ?case by auto
next
  case (Cons k ks)
  let ?kvs = "map (\<lambda>r. if key r = k then r\<lparr>deleted := 1\<rparr> else r) kvs"
  let ?logs = "logs @ [\<lparr>log_revision = n, log_timestamp = now, log_operation = ''delete'',
                       log_key = k, log_details = None\<rparr>]"
  from Cons.prems have rec: "delete_rows n now ks (?kvs, ?logs) = Inr (kvs', logs')"
    by (simp split: if_splits)
  from Cons.IH [OF rec]
  have len: "length kvs' = length ?kvs"
    and old: "\<forall>r' \<in> set kvs'. \<exists>r \<in> set ?kvs. r' = r \<or> r' = r\<lparr>deleted := 1\<rparr>"
    by blast+
  have "\<exists>r \<in> set kvs. r' = r \<or> r' = r\<lparr>deleted := 1\<rparr>" if "r' \<in> set kvs'" for r'
  proof -
    from old that obtain r where r: "r \<in> set ?kvs" "r' = r \<or> r' = r\<lparr>deleted := 1\<rparr>"
      by blast
    from r(1) obtain q where q: "q \<in> set kvs" "r = q \<or> r = q\<lparr>deleted := 1\<rparr>"
      by (auto split: if_splits)
    from r(2) q(2) have "r' = q \<or> r' = q\<lparr>deleted := 1\<rparr>" by auto
    with q(1) show ?thesis by blast
  qed
  with len show ?case by simp
qed

lemma delete_rows_logs:
  "delete_rows n now ks (kvs, logs) = Inr (kvs', logs') \<Longrightarrow>
   \<forall>l \<in> set logs'. l \<in> set logs \<or> log_revision l = n"
proof (induction ks arbitrary: kvs logs)
  case Nil
  then show ?case by auto
next
  case (Cons k ks)
  let ?kvs = "map (\<lambda>r. if key r = k then r\<lparr>deleted := 1\<rparr> else r) kvs"
  let ?new = "\<lparr>log_revision = n, log_timestamp = now, log_operation = ''delete'',
               log_key = k, log_details = None\<rparr>"
  from Cons.prems have "delete_rows n now ks (?kvs, logs @ [?new]) = Inr (kvs', logs')"
    by (simp split: if_splits)
  from Cons.IH [OF this]
  have "\<forall>l \<in> set logs'. l \<in> set (logs @ [?new]) \<or> log_revision l = n" .
  then show ?case by auto
qed

lemma delete_kv:
  "r' \<in> set (kv_entries (fst (delete st k range_end))) \<Longrightarrow>
   \<exists>r \<in> set (kv_entries st). r' = r \<or> r' = r\<lparr>deleted := 1\<rparr>"
  by (auto simp: delete_def Let_def split: sum.splits prod.splits dest!: delete_rows_kv)

lemma delete_logs:
  "l \<in> set (revisions (fst (delete st k range_end))) \<Longrightarrow>
   l \<in> set (revisions st) \<or> log_revision l = revision st + 1"
  by (auto simp: delete_def Let_def split: sum.splits prod.splits dest!: delete_rows_logs)

lemma delete_leases: "leases (fst (delete st k range_end)) = leases st"
  by (simp add: delete_def Let_def split: sum.splits prod.splits)

lemma delete_compacted_rev: "compacted_rev (fst (delete st k range_end)) = compacted_rev st"
  by (simp add: delete_def Let_def split: sum.splits prod.splits)

lemma delete_counter_ahead:
  assumes "counter_ahead st"
  shows "counter_ahead (fst (delete st k range_end))"
  unfolding counter_ahead_def
proof (intro conjI ballI)
  fix r' assume "r' \<in> set (kv_entries (fst (delete st k range_end)))"
  from delete_kv [OF this] obtain r
    where "r \<in> set (kv_entries st)" "r' = r \<or> r' = r\<lparr>deleted := 1\<rparr>" by blast
  with assms have "mod_revision r' \<le> revision st" by (auto simp: counter_ahead_def)
  then show "mod_revision r' \<le> revision (fst (delete st k range_end))"
    by (simp add: delete_revision)
next
  fix l assume "l \<in> set (revisions (fst (delete st k range_end)))"
  from delete_logs [OF this] assms have "log_revision l \<le> revision st + 1"
    by (auto simp: counter_ahead_def)
  then show "log_revision l \<le> revision (fst (delete st k range_end))"
    by (simp add: delete_revision)
qed

lemma delete_rows_created_at_mod:
  assumes "rows_created_at_mod st"
  shows "rows_created_at_mod (fst (delete st k range_end))"
  unfolding rows_created_at_mod_def
proof
  fix r' assume "r' \<in> set (kv_entries (fst (delete st k range_end)))"
  from delete_kv [OF this] obtain r
    where "r \<in> set (kv_entries st)" "r' = r \<or> r' = r\<lparr>deleted := 1\<rparr>" by blast
  with assms show "create_revision r' = mod_revision r'"
    by (auto simp: rows_created_at_mod_def)
qed

lemma put_rows_created_at_mod:
  "rows_created_at_mod st \<Longrightarrow> rows_created_at_mod (fst (put st k v lease))"
  using put_cases [of st k v lease]
  by (auto simp: rows_created_at_mod_def put_done_def put_row_def)

lemma find_SomeD: "find P xs = Some x \<Longrightarrow> x \<in> set xs \<and> P x"
  by (induction xs) (auto split: if_splits)

lemma find_map_same:
  assumes "\<And>x. P (f x) = P x"
  shows "find P (map f xs) = map_option f (find P xs)"
  by (induction xs) (simp_all add: assms)

lemma add_key_fields:
  "kv_entries (fst (add_key_to_lease b st lid k)) = kv_entries st"
  "revisions (fst (add_key_to_lease b st lid k)) = revisions st"
  "revision (fst (add_key_to_lease b st lid k)) = revision st"
  "compacted_rev (fst (add_key_to_lease b st lid k)) = compacted_rev st"
  by (simp_all add: add_key_to_lease_def split: option.splits)

lemma add_key_distinct:
  assumes "lease_keys_distinct st"
  shows "lease_keys_distinct (fst (add_key_to_lease b st lid k))"
proof (cases "find (\<lambda>l. ident l = lid) (leases st)")
  case None
  with assms show ?thesis by (simp add: add_key_to_lease_def)
next
  case (Some row)
  from find_SomeD [OF Some] assms have "distinct (keys row)"
    by (simp add: lease_keys_distinct_def)
  with assms show ?thesis
    by (auto simp: add_key_to_lease_def Some lease_keys_distinct_def)
qed

lemma add_key_twice:
  "fst (add_key_to_lease False (fst (add_key_to_lease False st lid k)) lid k) =
   fst (add_key_to_lease False st lid k)"
proof (cases "find (\<lambda>l. ident l = lid) (leases st)")
  case None
  then show ?thesis by (simp add: add_key_to_lease_def)
next
  case (Some row)
  show ?thesis
  proof (cases "k \<in> set (keys row)")
    case True
    with Some show ?thesis by (simp add: add_key_to_lease_def)
  next
    case False
    let ?f = "\<lambda>l. if ident l = lid then l\<lparr>keys := keys row @ [k]\<rparr> else l"
    have "find (\<lambda>l. ident l = lid) (map ?f (leases st)) =
        map_option ?f (find (\<lambda>l. ident l = lid) (leases st))"
      by (rule find_map_same) simp
    also have "\<dots> = Some (row\<lparr>keys := keys row @ [k]\<rparr>)"
      using find_SomeD [OF Some] by (simp add: Some)
    finally have again:
      "find (\<lambda>l. ident l = lid) (map ?f (leases st)) = Some (row\<lparr>keys := keys row @ [k]\<rparr>)" .
    have first: "fst (add_key_to_lease False st lid k) = st\<lparr>leases := map ?f (leases st)\<rparr>"
      using Some False by (simp add: add_key_to_lease_def)
    show ?thesis
      unfolding first by (simp add: add_key_to_lease_def again)
  qed
qed

lemma add_key_bound:
  assumes "find (\<lambda>l. ident l = lid) (leases (fst (add_key_to_lease False st lid k))) = Some l"
  shows "k \<in> set (keys l)"
proof (cases "find (\<lambda>l. ident l = lid) (leases st)")
  case None
  with assms show ?thesis by (simp add: add_key_to_lease_def)
next
  case (Some row)
  show ?thesis
  proof (cases "k \<in> set (keys row)")
    case True
    with Some assms show ?thesis by (simp add: add_key_to_lease_def)
  next
    case False
    let ?f = "\<lambda>l. if ident l = lid then l\<lparr>keys := keys row @ [k]\<rparr> else l"
    have "find (\<lambda>l. ident l = lid) (map ?f (leases st)) =
        map_option ?f (find (\<lambda>l. ident l = lid) (leases st))"
      by (rule find_map_same) simp
    also have "\<dots> = Some (row\<lparr>keys := keys row @ [k]\<rparr>)"
      using find_SomeD [OF Some] by (simp add: Some)
    finally have "find (\<lambda>l. ident l = lid) (map ?f (leases st)) =
        Some (row\<lparr>keys := keys row @ [k]\<rparr>)" .
    moreover have "fst (add_key_to_lease False st lid k) = st\<lparr>leases := map ?f (leases st)\<rparr>"
      using Some False by (simp add: add_key_to_lease_def)
    ultimately show ?thesis using assms by auto
  qed
qed

lemma put_lease_keys_distinct:
  "lease_keys_distinct st \<Longrightarrow> lease_keys_distinct (fst (put st k v lease))"
  by (simp add: lease_keys_distinct_def put_leases)

lemma txn_apply_keeps:
  assumes put_keeps: "\<And>s k v. P s \<Longrightarrow> P (fst (put s k v None))"
    and delete_keeps: "\<And>s k. P s \<Longrightarrow> P (fst (delete s k None))"
  shows "P st \<Longrightarrow> P (fst (txn_apply st ops res))"
proof (induction ops arbitrary: st res)
  case Nil
  then show ?case by simp
next
  case (Cons c ops)
  obtain op_type k v where c: "c = (op_type, k, v)" by (cases c) auto
  show ?case
  proof (cases "op_type = ''put''")
    case True
    from Cons.prems have "P (fst (put st k v None))" by (rule put_keeps)
    with Cons.IH True c show ?thesis
      by (cases "put st k v None") (auto split: sum.splits)
  next
    case False
    note not_put = this
    show ?thesis
    proof (cases "op_type = ''delete''")
      case True
      from Cons.prems have "P (fst (delete st k None))" by (rule delete_keeps)
      with Cons.IH True not_put c show ?thesis
        by (cases "delete st k None") (auto split: sum.splits)
    next
      case False
      with Cons not_put c show ?thesis by simp
    qed
  qed
qed

lemma txn_fst:
  "fst (txn st compare success_ops failure_ops) =
   fst (txn_apply st
          (if foldl (compare_step st) True compare then success_ops
           else (case failure_ops of None \<Rightarrow> [] | Some f \<Rightarrow> f)) [])"
  by (simp add: txn_def Let_def split: prod.splits sum.splits)

lemma txn_keeps:
  assumes "\<And>s k v. P s \<Longrightarrow> P (fst (put s k v None))"
    and "\<And>s k. P s \<Longrightarrow> P (fst (delete s k None))"
    and "P st"
  shows "P (fst (txn st compare success_ops failure_ops))"
  unfolding txn_fst using assms by (rule txn_apply_keeps)

lemma revoke_keys_keeps:
  assumes delete_keeps: "\<And>s k. P s \<Longrightarrow> P (fst (delete s k None))"
  shows "P st \<Longrightarrow> P (fst (revoke_keys st ks))"
proof (induction ks arbitrary: st)
  case Nil
  then show ?case by simp
next
  case (Cons k ks)
  from Cons.prems have "P (fst (delete st k None))" by (rule delete_keeps)
  with Cons.IH show ?case
    by (cases "delete st k None") (auto split: sum.splits)
qed

lemma revoke_lease_keeps:
  assumes delete_keeps: "\<And>s k. P s \<Longrightarrow> P (fst (delete s k None))"
    and leases_keeps: "\<And>s. P s \<Longrightarrow> P (s\<lparr>leases := filter (\<lambda>l. ident l \<noteq> lid) (leases s)\<rparr>)"
    and "P st"
  shows "P (fst (revoke_lease st lid))"
proof -
  define ks where
    "ks = (case find (\<lambda>l. ident l = lid) (leases st) of None \<Rightarrow> [] | Some row \<Rightarrow> keys row)"
  obtain st' res where run: "revoke_keys st ks = (st', res)"
    by (cases "revoke_keys st ks") auto
  have "P (fst (revoke_keys st ks))"
    using delete_keeps \<open>P st\<close> by (rule revoke_keys_keeps)
  with run have "P st'" by simp
  then show ?thesis
    using run leases_keeps [of st']
    by (cases res) (simp_all add: revoke_lease_def ks_def [symmetric])
qed

lemma compact_fields:
  "kv_entries (fst (compact st r)) = kv_entries st"
  "leases (fst (compact st r)) = leases st"
  "revision (fst (compact st r)) = revision st"
  "set (revisions (fst (compact st r))) \<subseteq> set (revisions st)"
  by (auto simp: compact_def)

lemma exec_rows_created_at_mod:
  assumes "rows_created_at_mod st"
  shows "rows_created_at_mod (exec st c)"
proof (cases c)
  case (Put k v lease)
  with assms show ?thesis by (simp add: put_rows_created_at_mod)
next
  case (Delete k range_end)
  with assms show ?thesis by (simp add: delete_rows_created_at_mod)
next
  case (Txn compare success_ops failure_ops)
  have "rows_created_at_mod (fst (txn st compare success_ops failure_ops))"
    by (rule txn_keeps [where P = rows_created_at_mod])
      (simp_all add: put_rows_created_at_mod delete_rows_created_at_mod assms)
  with Txn show ?thesis by simp
next
  case (RevokeLease lid)
  have "rows_created_at_mod (fst (revoke_lease st lid))"
    by (rule revoke_lease_keeps [where P = rows_created_at_mod])
      (simp_all add: delete_rows_created_at_mod assms, simp add: rows_created_at_mod_def)
  with RevokeLease show ?thesis by simp
qed (use assms in \<open>auto simp: rows_created_at_mod_def compact_fields add_key_fields
      grant_lease_def keepalive_def init_def split: option.splits\<close>)

lemma exec_lease_keys_distinct:
  assumes "lease_keys_distinct st"
  shows "lease_keys_distinct (exec st c)"
proof (cases c)
  case (Put k v lease)
  with assms show ?thesis by (simp add: put_lease_keys_distinct)
next
  case (Delete k range_end)
  with assms show ?thesis by (simp add: lease_keys_distinct_def delete_leases)
next
  case (Txn compare success_ops failure_ops)
  have "lease_keys_distinct (fst (txn st compare success_ops failure_ops))"
    by (rule txn_keeps [where P = lease_keys_distinct])
      (simp_all add: lease_keys_distinct_def put_leases delete_leases
        assms [unfolded lease_keys_distinct_def])
  with Txn show ?thesis by simp
next
  case (RevokeLease lid)
  have "lease_keys_distinct (fst (revoke_lease st lid))"
    by (rule revoke_lease_keeps [where P = lease_keys_distinct])
      (simp_all add: lease_keys_distinct_def delete_leases
        assms [unfolded lease_keys_distinct_def])
  with RevokeLease show ?thesis by simp
next
  case (AddKeyToLease lid k)
  with assms show ?thesis by (simp add: add_key_distinct)
qed (use assms in \<open>auto simp: lease_keys_distinct_def compact_fields grant_lease_def
      keepalive_def init_def split: option.splits\<close>)

lemma exec_counter_ahead:
  assumes "counter_ahead st" and "c \<noteq> Restart"
  shows "counter_ahead (exec st c)"
proof (cases c)
  case (Put k v lease)
  with assms show ?thesis by (simp add: put_counter_ahead)
next
  case (Delete k range_end)
  with assms show ?thesis by (simp add: delete_counter_ahead)
next
  case (Txn compare success_ops failure_ops)
  have "counter_ahead (fst (txn st compare success_ops failure_ops))"
    by (rule txn_keeps [where P = counter_ahead])
      (simp_all add: put_counter_ahead delete_counter_ahead assms)
  with Txn show ?thesis by simp
next
  case (RevokeLease lid)
  have "counter_ahead (fst (revoke_lease st lid))"
    by (rule revoke_lease_keeps [where P = counter_ahead])
      (simp_all add: delete_counter_ahead assms, simp add: counter_ahead_def)
  with RevokeLease show ?thesis by simp
next
  case (Compact r)
  have "log_revision l \<le> revision st" if "l \<in> set (revisions (fst (compact st r)))" for l
  proof -
    from that compact_fields(4) [of st r] have "l \<in> set (revisions st)" by blast
    with assms show ?thesis by (simp add: counter_ahead_def)
  qed
  with assms Compact show ?thesis
    by (simp add: counter_ahead_def compact_fields)
qed (use assms in \<open>auto simp: counter_ahead_def add_key_fields grant_lease_def
      keepalive_def split: option.splits\<close>)

lemma exec_compacted_le:
  assumes "compacted_rev st \<le> revision st"
    and "case c of Compact r \<Rightarrow> r \<le> revision st | _ \<Rightarrow> True"
  shows "compacted_rev (exec st c) \<le> revision (exec st c)"
proof (cases c)
  case (Put k v lease)
  with assms show ?thesis by (simp add: put_revision put_compacted_rev)
next
  case (Delete k range_end)
  with assms show ?thesis by (simp add: delete_revision delete_compacted_rev)
next
  case (Txn compare success_ops failure_ops)
  have "compacted_rev (fst (txn st compare success_ops failure_ops))
      \<le> revision (fst (txn st compare success_ops failure_ops))"
    by (rule txn_keeps [where P = "\<lambda>s. compacted_rev s \<le> revision s"])
      (simp_all add: put_revision put_compacted_rev delete_revision delete_compacted_rev assms)
  with Txn show ?thesis by simp
next
  case (RevokeLease lid)
  have "compacted_rev (fst (revoke_lease st lid)) \<le> revision (fst (revoke_lease st lid))"
    by (rule revoke_lease_keeps [where P = "\<lambda>s. compacted_rev s \<le> revision s"])
      (simp_all add: delete_revision delete_compacted_rev assms)
  with RevokeLease show ?thesis by simp
next
  case (Compact r)
  with assms show ?thesis by (simp add: compact_def)
qed (use assms in \<open>auto simp: add_key_fields grant_lease_def keepalive_def init_def
      split: option.splits\<close>)

lemma foldl_exec_keeps:
  assumes "\<And>s c. c \<in> set cs \<Longrightarrow> P s \<Longrightarrow> P (exec s c)"
  shows "P st \<Longrightarrow> P (foldl exec st cs)"
  using assms by (induction cs arbitrary: st) auto

lemma run_rows_created_at_mod: "rows_created_at_mod (run cs)"
  unfolding run_def
  by (rule foldl_exec_keeps [where P = rows_created_at_mod])
    (simp_all add: exec_rows_created_at_mod,
      simp add: rows_created_at_mod_def init_def empty_store_def)

lemma run_lease_keys_distinct: "lease_keys_distinct (run cs)"
  unfolding run_def
  by (rule foldl_exec_keeps [where P = lease_keys_distinct])
    (simp_all add: exec_lease_keys_distinct,
      simp add: lease_keys_distinct_def init_def empty_store_def)

lemma run_counter_ahead:
  assumes "Restart \<notin> set cs"
  shows "counter_ahead (run cs)"
  unfolding run_def
proof (rule foldl_exec_keeps [where P = counter_ahead])
  show "counter_ahead (init empty_store)"
    by (simp add: counter_ahead_def init_def empty_store_def)
next
  fix s c assume "c \<in> set cs" and "counter_ahead s"
  with assms have "c \<noteq> Restart" by auto
  with \<open>counter_ahead s\<close> show "counter_ahead (exec s c)"
    by (rule exec_counter_ahead)
qed

lemma compacts_within_le:
  "compacts_within st cs \<Longrightarrow> compacted_rev st \<le> revision st \<Longrightarrow>
   compacted_rev (foldl exec st cs) \<le> revision (foldl exec st cs)"
proof (induction cs arbitrary: st)
  case Nil
  then show ?case by simp
next
  case (Cons c cs)
  from Cons.prems have "compacted_rev (exec st c) \<le> revision (exec st c)"
    by (intro exec_compacted_le) simp_all
  with Cons show ?case by simp
qed

lemma latest_mem: "latest rs = Some r \<Longrightarrow> r \<in> set rs"
  by (induction rs arbitrary: r) (auto split: option.splits if_splits)

lemma latest_snoc:
  "\<forall>x \<in> set rs. mod_revision x < mod_revision r \<Longrightarrow> latest (rs @ [r]) = Some r"
  by (induction rs) (auto split: option.splits)

lemma truncate_fields:
  "key (KVEntry.truncate r) = key r"
  "val (KVEntry.truncate r) = val r"
  "version (KVEntry.truncate r) = version r"
  "create_revision (KVEntry.truncate r) = create_revision r"
  "mod_revision (KVEntry.truncate r) = mod_revision r"
  "lease_id (KVEntry.truncate r) = lease_id r"
  by (simp_all add: KVEntry.truncate_def)

lemma get_mem:
  "get st k at = Some e \<Longrightarrow> \<exists>r \<in> set (kv_entries st). e = KVEntry.truncate r"
  by (cases at) (auto simp: get_def live_rows_def dest!: latest_mem)

lemma get_prefix_mem:
  "e \<in> set (get_prefix st p) \<Longrightarrow> \<exists>r \<in> set (kv_entries st). e = KVEntry.truncate r"
  by (auto simp: get_prefix_def)

lemma list_revision_history_mem:
  "e \<in> set (list_revision_history st k limit) \<Longrightarrow>
   \<exists>r \<in> set (kv_entries st). e = KVEntry.truncate r"
  by (auto simp: list_revision_history_def Let_def split: if_splits dest!: in_set_takeD)

lemma put_new_row:
  assumes "snd (put st k v lease) = Inr r"
  shows "r = revision st + 1 \<and>
         (\<exists>row. kv_entries (fst (put st k v lease)) = kv_entries st @ [row] \<and>
                key row = k \<and> val row = v \<and> lease_id row = lease \<and>
                create_revision row = r \<and> mod_revision row = r)"
  using put_returns [OF assms] by (simp add: put_done_def put_row_def)

lemma delete_returns:
  assumes "snd (delete st k range_end) = Inr r"
  shows "r = revision st + 1"
  using assms by (simp add: delete_def Let_def split: sum.splits prod.splits)

lemma no_live_row_flagged:
  "filter (\<lambda>r. key r = k \<and> deleted r = 0)
     (map (\<lambda>r. if key r = k then r\<lparr>deleted := 1\<rparr> else r) rows) = []"
  by (induction rows) simp_all

lemma delete_single_kv:
  assumes "snd (delete st k None) = Inr r"
  shows "kv_entries (fst (delete st k None)) =
           map (\<lambda>r. if key r = k then r\<lparr>deleted := 1\<rparr> else r) (kv_entries st)"
  using assms by (simp add: delete_def Let_def split: if_splits)

lemma live_rows_after_delete:
  assumes "snd (delete st k None) = Inr r"
  shows "live_rows (fst (delete st k None)) k = []"
  by (simp add: live_rows_def delete_single_kv [OF assms] no_live_row_flagged)

lemma get_after_delete_absent:
  assumes "snd (delete st k None) = Inr r"
  shows "get (fst (delete st k None)) k at_rev = None"
proof -
  have "live_rows (fst (delete st k None)) k = []"
    by (simp add: live_rows_def delete_single_kv [OF assms] no_live_row_flagged)
  then show ?thesis
    by (cases at_rev) (simp_all add: get_def)
qed






lemma poll_changes_raises: "poll_changes st w = Inl OperationalError"
  by (simp add: poll_changes_def select3_def revisions_column_def)

lemma get_after_put_ahead:
  assumes "counter_ahead st" and "snd (put st k v lease) = Inr r"
  shows "\<exists>e. get (fst (put st k v lease)) k None = Some e \<and> val e = v \<and>
           lease_id e = lease \<and> mod_revision e = revision st + 1"
proof -
  define row where "row = put_row st k v lease"
  have "mod_revision x < mod_revision row" if "x \<in> set (live_rows st k)" for x
  proof -
    from that have "x \<in> set (kv_entries st)" by (simp add: live_rows_def)
    with assms(1) have "mod_revision x \<le> revision st" by (simp add: counter_ahead_def)
    then show ?thesis by (simp add: row_def put_row_def)
  qed
  then have "latest (live_rows st k @ [row]) = Some row"
    by (intro latest_snoc ballI)
  moreover have kv: "kv_entries (fst (put st k v lease)) = kv_entries st @ [row]"
    using put_returns(1) [OF assms(2)] by (simp add: put_done_def row_def)
  have "live_rows (fst (put st k v lease)) k = live_rows st k @ [row]"
    unfolding live_rows_def kv by (simp add: row_def put_row_def)
  ultimately have "get (fst (put st k v lease)) k None = Some (KVEntry.truncate row)"
    by (simp add: get_def)
  then show ?thesis by (simp add: KVEntry.truncate_def row_def put_row_def)
qed

lemma put_unknown_lease:
  assumes "lid \<notin> ident ` set (leases st)"
  shows "snd (put st k v (Some lid)) = snd (put st k v None)"
proof -
  have "find (\<lambda>l. ident l = lid) (leases st) = None"
    using assms by (auto simp: find_None_iff)
  then have "add_key_to_lease True (put_done st k v (Some lid)) lid k =
      (put_done st k v (Some lid), Inr ())"
    by (simp add: add_key_to_lease_def put_done_def)
  then show ?thesis
    by (simp add: put_def Let_def put_done_def put_row_def put_log_def)
qed

lemma put_under_lease_raises:
  assumes "find (\<lambda>l. ident l = lid) (leases st) = Some row" and "k \<notin> set (keys row)"
    and "lid \<noteq> []"
  shows "snd (put st k v (Some lid)) = Inl IntegrityError \<or>
         snd (put st k v (Some lid)) = Inl OperationalError"
proof -
  have "add_key_to_lease True (put_done st k v (Some lid)) lid k =
      (put_done st k v (Some lid), Inl OperationalError)"
    using assms by (simp add: add_key_to_lease_def put_done_def)
  then show ?thesis
    using assms(3) by (simp add: put_def Let_def put_done_def put_row_def put_log_def)
qed

text \<open>The definitions a closed history of calls is evaluated with.\<close>

lemmas run_eval =
  run_def init_def empty_store_def put_def delete_def get_def live_rows_def Let_def
  add_key_to_lease_def KVEntry.truncate_def

text \<open>\<open>put\<close> under a granted lease, on a key the lease does not hold yet.\<close>

lemma put_under_lease_locked:
  "put (run [GrantLease ''lease-1'' 60]) ''k'' ''v'' (Some ''lease-1'') =
     ((run [GrantLease ''lease-1'' 60])\<lparr>revision := 1\<rparr>, Inl OperationalError)"
  by (simp add: run_eval grant_lease_def)

section \<open>Claims\<close>

text \<open>
  Claim C1. The claim lets \<open>get(k, R)\<close> return the entry of greatest \<open>mod_revision\<close> at
  most \<open>R\<close> unless a delete lies between the two, so that a delete after \<open>R\<close> leaves the
  read alone. \<open>delete\<close> flags every stored row of its key and \<open>get\<close> reads only rows that
  are not flagged: after \<open>put("a","1")\<close> the read \<open>get("a", 1)\<close> returns the entry written
  at revision 1, and once \<open>delete("a")\<close> has returned revision 2 the same read returns
  nothing (lemma \<open>get_after_delete_absent\<close>: at no revision, for no store).
\<close>

theorem get_at_revision_after_delete:
  "get (run [Put ''a'' ''1'' None]) ''a'' (Some 1) =
     Some \<lparr>key = ''a'', val = ''1'', version = 1, create_revision = 1, mod_revision = 1,
           lease_id = None, created_at = 0, modified_at = 0\<rparr> \<and>
   snd (delete (run [Put ''a'' ''1'' None]) ''a'' None) = Inr 2 \<and>
   get (run [Put ''a'' ''1'' None, Delete ''a'' None]) ''a'' (Some 1) = None"
  by (simp add: run_eval)

text \<open>
  Claim C2. The claim lets a put on a live key keep the \<open>create_revision\<close> of the entry
  before it. After \<open>put("a","1")\<close> returning 1 and \<open>put("a","2")\<close> returning 2,
  \<open>get("a")\<close> has value \<open>"2"\<close>, version 2 and \<open>mod_revision\<close> 2 as claimed, and
  \<open>create_revision\<close> 2 where the claim has 1: \<open>put\<close> writes the new revision into both
  columns.
\<close>

theorem second_put_create_revision:
  "snd (put (init empty_store) ''a'' ''1'' None) = Inr 1 \<and>
   snd (put (run [Put ''a'' ''1'' None]) ''a'' ''2'' None) = Inr 2 \<and>
   get (run [Put ''a'' ''1'' None, Put ''a'' ''2'' None]) ''a'' None =
     Some \<lparr>key = ''a'', val = ''2'', version = 2, create_revision = 2, mod_revision = 2,
           lease_id = None, created_at = 0, modified_at = 0\<rparr>"
  by (simp add: run_eval)

text \<open>
  Claim C3. The claim lets \<open>get_prefix(p)\<close> return one entry, the latest, per live key
  that begins with \<open>p\<close>, also for keys of several versions and for prefixes that hold
  \<open>%\<close> or \<open>_\<close>. The query selects every row that is not flagged and matches with
  \<open>LIKE\<close>: after two puts on \<open>"a"\<close>, \<open>get_prefix("a")\<close> returns both versions, and with
  the one key \<open>"ab"\<close> stored, \<open>get_prefix("_b")\<close> and \<open>get_prefix("%b")\<close> return its entry
  although \<open>"ab"\<close> begins with neither.
\<close>

theorem get_prefix_versions_and_wildcards:
  "map (\<lambda>e. (key e, val e, version e))
     (get_prefix (run [Put ''a'' ''1'' None, Put ''a'' ''2'' None]) ''a'') =
     [(''a'', ''1'', 1), (''a'', ''2'', 2)] \<and>
   map (\<lambda>e. (key e, val e)) (get_prefix (run [Put ''ab'' ''1'' None]) ''_b'') =
     [(''ab'', ''1'')] \<and>
   map (\<lambda>e. (key e, val e)) (get_prefix (run [Put ''ab'' ''1'' None]) ''%b'') =
     [(''ab'', ''1'')]"
  by (simp add: run_eval get_prefix_def ascii_lower_def)

text \<open>
  Claim C4. The claim lets a watch deliver the log records after its registration that
  match its prefix, in order and once each. Scenario 5 of the specification: the watch
  on \<open>"k"\<close> is registered at revision 1, then come \<open>put("k","v2")\<close> and \<open>delete("k")\<close>.
  The round of \<open>poll_changes\<close> that follows raises \<open>OperationalError\<close> before any call of
  the callback, because its query selects a column \<open>value\<close> that \<open>revisions\<close> does not
  have (lemma \<open>poll_changes_raises\<close>: so does every round, for every store and watch).
\<close>

theorem watch_poll_raises:
  "last_revision (watch (run [Put ''k'' ''v1'' None]) ''k'') = SqlInt 1 \<and>
   poll_changes (run [Put ''k'' ''v1'' None, Put ''k'' ''v2'' None, Delete ''k'' None])
     (watch (run [Put ''k'' ''v1'' None]) ''k'') = Inl OperationalError"
  by (simp add: poll_changes_def select3_def revisions_column_def watch_def run_eval)

text \<open>
  Claim C5. The claim lets the revision counter stand still when the backend write of
  a put or delete does not commit. With the live keys \<open>"a"\<close> and \<open>"b"\<close> stored at
  revisions 1 and 2, the range delete \<open>delete("a", "c")\<close> inserts a log record at
  revision 3 for \<open>"a"\<close> and a second one at the same revision for \<open>"b"\<close>: the primary key
  of \<open>revisions\<close> refuses it, the transaction is rolled back with both tables as they
  were, and the counter is left at 3.
\<close>

theorem range_delete_advances_counter:
  "revision (run [Put ''a'' ''1'' None, Put ''b'' ''2'' None]) = 2 \<and>
   delete (run [Put ''a'' ''1'' None, Put ''b'' ''2'' None]) ''a'' (Some ''c'') =
     ((run [Put ''a'' ''1'' None, Put ''b'' ''2'' None])\<lparr>revision := 3\<rparr>, Inl IntegrityError)"
  by (simp add: run_eval)




text \<open>
  Claim C7 as the specification states it: \<open>compact(r)\<close> fails with \<open>FutureRevision\<close>
  when \<open>r\<close> is beyond the current revision, so that \<open>compacted_revision\<close> never exceeds
  it. On a new store, at revision 0, \<open>compact(5)\<close> returns and takes effect:
  \<open>compacted_rev\<close> becomes 5 and the revision stays 0.
\<close>

theorem compact_beyond_counter:
  "snd (compact (init empty_store) 5) = Inr () \<and>
   compacted_rev (fst (compact (init empty_store) 5)) = 5 \<and>
   revision (fst (compact (init empty_store) 5)) = 0 \<and>
   \<not> compacted_rev (fst (compact (init empty_store) 5))
       \<le> revision (fst (compact (init empty_store) 5))"
  by (simp add: compact_def sqlite_int_def init_def empty_store_def)

text \<open>
  Claim C7, amended. For every \<open>r\<close> that SQLite can hold, beyond the current revision or
  not, \<open>compact(r)\<close> returns, sets \<open>compacted_rev\<close> to the greater of its old value and
  \<open>r\<close> and keeps of the log exactly the records of revision greater than \<open>r\<close>; for every
  other \<open>r\<close> it raises \<open>OverflowError\<close> and changes nothing. In both cases the revision
  counter, the entries and the leases stay as they are, and compacting again at the same
  \<open>r\<close> gives the same state and outcome. \<open>compacted_rev\<close> is at most the revision after
  every call of a history from the empty database in which every \<open>compact(r)\<close> is
  called with \<open>r\<close> at most the revision of the moment.
\<close>

theorem compact_effect:
  "(sqlite_int r \<longrightarrow>
      snd (compact st r) = Inr () \<and>
      compacted_rev (fst (compact st r)) = max (compacted_rev st) r \<and>
      revisions (fst (compact st r)) = filter (\<lambda>l. r < log_revision l) (revisions st)) \<and>
   (\<not> sqlite_int r \<longrightarrow> compact st r = (st, Inl OverflowError)) \<and>
   revision (fst (compact st r)) = revision st \<and>
   kv_entries (fst (compact st r)) = kv_entries st \<and>
   leases (fst (compact st r)) = leases st \<and>
   compact (fst (compact st r)) r = compact st r \<and>
   (compacts_within (init empty_store) cs \<longrightarrow> compacted_rev (run cs) \<le> revision (run cs))"
proof -
  have "compacted_rev (run cs) \<le> revision (run cs)" if "compacts_within (init empty_store) cs"
    unfolding run_def using that
    by (rule compacts_within_le) (simp add: init_def empty_store_def)
  moreover have "compact (fst (compact st r)) r = compact st r"
    by (simp add: compact_def)
  moreover have "revisions (fst (compact st r)) = filter (\<lambda>l. r < log_revision l) (revisions st)"
    if "sqlite_int r"
    using that by (simp add: compact_def not_le)
  ultimately show ?thesis
    by (simp add: compact_def)
qed

text \<open>The same for \<open>compact(1)\<close> and \<open>compact(2 ** 63)\<close> after two puts.\<close>

theorem compact_effect_witness:
  "sqlite_int 1 \<and> \<not> sqlite_int (2 ^ 63) \<and>
   compacts_within (init empty_store) [Put ''a'' ''1'' None, Put ''b'' ''2'' None, Compact 1] \<and>
   snd (compact (run [Put ''a'' ''1'' None, Put ''b'' ''2'' None]) 1) = Inr () \<and>
   compacted_rev (run [Put ''a'' ''1'' None, Put ''b'' ''2'' None, Compact 1]) = 1 \<and>
   revision (run [Put ''a'' ''1'' None, Put ''b'' ''2'' None, Compact 1]) = 2 \<and>
   revisions (run [Put ''a'' ''1'' None, Put ''b'' ''2'' None, Compact 1]) =
     [\<lparr>log_revision = 2, log_timestamp = 0, log_operation = ''put'', log_key = ''b'',
       log_details = Some 1\<rparr>] \<and>
   compact (run [Put ''a'' ''1'' None, Put ''b'' ''2'' None]) (2 ^ 63) =
     (run [Put ''a'' ''1'' None, Put ''b'' ''2'' None], Inl OverflowError) \<and>
   compacted_rev (run [Put ''a'' ''1'' None, Put ''b'' ''2'' None, Compact 1])
     \<le> revision (run [Put ''a'' ''1'' None, Put ''b'' ''2'' None, Compact 1])"
proof -
  have small: "sqlite_int 1" and large: "\<not> sqlite_int (2 ^ 63)"
    by (simp_all add: sqlite_int_def)
  have st: "revision (run [Put ''a'' ''1'' None, Put ''b'' ''2'' None]) = 2"
    "compacted_rev (run [Put ''a'' ''1'' None, Put ''b'' ''2'' None]) = 0"
    "revisions (run [Put ''a'' ''1'' None, Put ''b'' ''2'' None]) =
       [\<lparr>log_revision = 1, log_timestamp = 0, log_operation = ''put'', log_key = ''a'',
         log_details = Some 1\<rparr>,
        \<lparr>log_revision = 2, log_timestamp = 0, log_operation = ''put'', log_key = ''b'',
         log_details = Some 1\<rparr>]"
    by (simp_all add: run_eval)
  have step: "run [Put ''a'' ''1'' None, Put ''b'' ''2'' None, Compact 1] =
      fst (compact (run [Put ''a'' ''1'' None, Put ''b'' ''2'' None]) 1)"
    by (simp add: run_def)
  have within:
    "compacts_within (init empty_store) [Put ''a'' ''1'' None, Put ''b'' ''2'' None, Compact 1]"
    by (simp add: run_eval)
  note inst1 = compact_effect [of 1 "run [Put ''a'' ''1'' None, Put ''b'' ''2'' None]"
      "[Put ''a'' ''1'' None, Put ''b'' ''2'' None, Compact 1]"]
  note inst2 = compact_effect [of "2 ^ 63" "run [Put ''a'' ''1'' None, Put ''b'' ''2'' None]" "[]"]
  from inst2 large
  have over: "compact (run [Put ''a'' ''1'' None, Put ''b'' ''2'' None]) (2 ^ 63) =
     (run [Put ''a'' ''1'' None, Put ''b'' ''2'' None], Inl OverflowError)"
    by blast
  from inst1 small within
  have "snd (compact (run [Put ''a'' ''1'' None, Put ''b'' ''2'' None]) 1) = Inr ()"
    and "compacted_rev (run [Put ''a'' ''1'' None, Put ''b'' ''2'' None, Compact 1]) = 1"
    and "revision (run [Put ''a'' ''1'' None, Put ''b'' ''2'' None, Compact 1]) = 2"
    and "revisions (run [Put ''a'' ''1'' None, Put ''b'' ''2'' None, Compact 1]) =
     [\<lparr>log_revision = 2, log_timestamp = 0, log_operation = ''put'', log_key = ''b'',
       log_details = Some 1\<rparr>]"
    and "compacted_rev (run [Put ''a'' ''1'' None, Put ''b'' ''2'' None, Compact 1])
     \<le> revision (run [Put ''a'' ''1'' None, Put ''b'' ''2'' None, Compact 1])"
    by (simp_all add: step st)
  with small large within over show ?thesis
    by blast
qed

text \<open>
  Claim C8 as the specification states it: a put whose \<open>lease_id\<close> names no lease fails
  with \<open>LeaseNotFound\<close>. On a new store, which has no lease, \<open>put("k","v","lease-0")\<close>
  returns revision 1 and stores the entry with that \<open>lease_id\<close>.
\<close>

theorem put_unknown_lease_returns:
  "leases (init empty_store) = [] \<and>
   put (init empty_store) ''k'' ''v'' (Some ''lease-0'') =
     (\<lparr>revision = 1, compacted_rev = 0,
       kv_entries = [\<lparr>key = ''k'', val = ''v'', version = 1, create_revision = 1,
                      mod_revision = 1, lease_id = Some ''lease-0'', created_at = 0,
                      modified_at = 0, deleted = 0\<rparr>],
       leases = [],
       revisions = [\<lparr>log_revision = 1, log_timestamp = 0, log_operation = ''put'',
                     log_key = ''k'', log_details = Some 1\<rparr>],
       clock = 0\<rparr>, Inr 1)"
  by (simp add: run_eval)

text \<open>
  Claim C8, amended. A put whose \<open>lease_id\<close> names no row of \<open>leases\<close> ends as the same
  put without a lease does: it leaves the leases as they are and, when it returns, has
  written the row with that \<open>lease_id\<close> at the next revision; on a store whose counter is
  ahead of its tables it returns, and \<open>get\<close> returns the entry it wrote. Binding is
  idempotent: \<open>_add_key_to_lease\<close> twice is \<open>_add_key_to_lease\<close> once, after it the key is
  in the list of the lease it names, \<open>_add_key_to_lease\<close> and \<open>put\<close> keep the key lists
  free of duplicates, and they are free of duplicates in every state a history of calls
  reaches from the empty database.
\<close>

theorem lease_binding:
  "(lid \<notin> ident ` set (leases st) \<longrightarrow>
      snd (put st k v (Some lid)) = snd (put st k v None) \<and>
      leases (fst (put st k v (Some lid))) = leases st \<and>
      (snd (put st k v (Some lid)) = Inr r \<longrightarrow>
         r = revision st + 1 \<and>
         (\<exists>row. kv_entries (fst (put st k v (Some lid))) = kv_entries st @ [row] \<and>
                key row = k \<and> val row = v \<and> lease_id row = Some lid \<and>
                mod_revision row = r)) \<and>
      (counter_ahead st \<longrightarrow>
         snd (put st k v (Some lid)) = Inr (revision st + 1) \<and>
         (\<exists>e. get (fst (put st k v (Some lid))) k None = Some e \<and> val e = v \<and>
              lease_id e = Some lid \<and> mod_revision e = revision st + 1))) \<and>
   fst (add_key_to_lease False (fst (add_key_to_lease False st lid k)) lid k) =
     fst (add_key_to_lease False st lid k) \<and>
   (find (\<lambda>l. ident l = lid) (leases (fst (add_key_to_lease False st lid k))) = Some l \<longrightarrow>
      k \<in> set (keys l)) \<and>
   (lease_keys_distinct st \<longrightarrow>
      lease_keys_distinct (fst (add_key_to_lease False st lid k)) \<and>
      lease_keys_distinct (fst (put st k v lease))) \<and>
   (\<forall>l \<in> set (leases (run cs)). distinct (keys l))"
proof (intro conjI impI ballI)
  show "fst (add_key_to_lease False (fst (add_key_to_lease False st lid k)) lid k) =
      fst (add_key_to_lease False st lid k)"
    by (rule add_key_twice)
next
  assume "find (\<lambda>l. ident l = lid) (leases (fst (add_key_to_lease False st lid k))) = Some l"
  then show "k \<in> set (keys l)" by (rule add_key_bound)
next
  assume "lease_keys_distinct st"
  then show "lease_keys_distinct (fst (add_key_to_lease False st lid k))"
    by (rule add_key_distinct)
next
  assume "lease_keys_distinct st"
  then show "lease_keys_distinct (fst (put st k v lease))"
    by (rule put_lease_keys_distinct)
next
  fix l assume "l \<in> set (leases (run cs))"
  with run_lease_keys_distinct [of cs] show "distinct (keys l)"
    by (simp add: lease_keys_distinct_def)
next
  assume unknown: "lid \<notin> ident ` set (leases st)"
  then show same: "snd (put st k v (Some lid)) = snd (put st k v None)"
    by (rule put_unknown_lease)
  show "leases (fst (put st k v (Some lid))) = leases st"
    by (rule put_leases)
  {
    assume ret: "snd (put st k v (Some lid)) = Inr r"
    from put_new_row [OF ret] show "r = revision st + 1" by simp
    from put_new_row [OF ret]
    show "\<exists>row. kv_entries (fst (put st k v (Some lid))) = kv_entries st @ [row] \<and>
        key row = k \<and> val row = v \<and> lease_id row = Some lid \<and> mod_revision row = r"
      by blast
  }
  {
    assume ahead: "counter_ahead st"
    from put_None_ahead [OF ahead, of k v] same
    show ret: "snd (put st k v (Some lid)) = Inr (revision st + 1)"
      by simp
    from get_after_put_ahead [OF ahead ret]
    show "\<exists>e. get (fst (put st k v (Some lid))) k None = Some e \<and> val e = v \<and>
        lease_id e = Some lid \<and> mod_revision e = revision st + 1" .
  }
qed

text \<open>The same on a new store, and for \<open>_add_key_to_lease\<close> called twice with one key
  on a granted lease.\<close>

theorem lease_binding_witness:
  "''lease-0'' \<notin> ident ` set (leases (init empty_store)) \<and>
   counter_ahead (init empty_store) \<and>
   snd (put (init empty_store) ''k'' ''v'' (Some ''lease-0'')) = Inr 1 \<and>
   leases (fst (put (init empty_store) ''k'' ''v'' (Some ''lease-0''))) = [] \<and>
   lease_keys_distinct (run [GrantLease ''lease-1'' 60]) \<and>
   lease_keys_distinct
     (fst (add_key_to_lease False (run [GrantLease ''lease-1'' 60]) ''lease-1'' ''k'')) \<and>
   leases (run [GrantLease ''lease-1'' 60, AddKeyToLease ''lease-1'' ''k'']) =
     [\<lparr>ident = ''lease-1'', ttl_s = 60, granted_at = 0, expires_at = 60, keys = [''k'']\<rparr>] \<and>
   leases (run [GrantLease ''lease-1'' 60, AddKeyToLease ''lease-1'' ''k'',
                AddKeyToLease ''lease-1'' ''k'']) =
     [\<lparr>ident = ''lease-1'', ttl_s = 60, granted_at = 0, expires_at = 60, keys = [''k'']\<rparr>]"
proof -
  have ahead: "counter_ahead (init empty_store)"
    by (simp add: counter_ahead_def init_def empty_store_def)
  have unknown: "''lease-0'' \<notin> ident ` set (leases (init empty_store))"
    by (simp add: init_def empty_store_def)
  have distinct1: "lease_keys_distinct (run [GrantLease ''lease-1'' 60])"
    by (rule run_lease_keys_distinct)
  have start: "revision (init empty_store) = 0" "leases (init empty_store) = []"
    by (simp_all add: init_def empty_store_def)
  have once: "leases (run [GrantLease ''lease-1'' 60, AddKeyToLease ''lease-1'' ''k'']) =
     [\<lparr>ident = ''lease-1'', ttl_s = 60, granted_at = 0, expires_at = 60, keys = [''k'']\<rparr>]"
    by (simp add: run_eval grant_lease_def)
  have steps:
    "run [GrantLease ''lease-1'' 60, AddKeyToLease ''lease-1'' ''k''] =
       fst (add_key_to_lease False (run [GrantLease ''lease-1'' 60]) ''lease-1'' ''k'')"
    "run [GrantLease ''lease-1'' 60, AddKeyToLease ''lease-1'' ''k'',
          AddKeyToLease ''lease-1'' ''k''] =
       fst (add_key_to_lease False
              (fst (add_key_to_lease False (run [GrantLease ''lease-1'' 60]) ''lease-1'' ''k''))
              ''lease-1'' ''k'')"
    by (simp_all add: run_def)
  define row where
    "row = \<lparr>ident = ''lease-1'', ttl_s = 60, granted_at = 0, expires_at = 60, keys = [''k'']\<rparr>"
  note inst1 = lease_binding [of "''lease-0''" "init empty_store" "''k''" "''v''" 1 row
      "None" "[]"]
  note inst2 = lease_binding [of "''lease-1''" "run [GrantLease ''lease-1'' 60]" "''k''" "''v''"
      1 row "None" "[]"]
  from inst1 unknown ahead
  have "snd (put (init empty_store) ''k'' ''v'' (Some ''lease-0'')) =
      Inr (revision (init empty_store) + 1)"
    by blast
  moreover from inst1 unknown
  have "leases (fst (put (init empty_store) ''k'' ''v'' (Some ''lease-0''))) =
      leases (init empty_store)"
    by blast
  ultimately have "snd (put (init empty_store) ''k'' ''v'' (Some ''lease-0'')) = Inr 1"
    and "leases (fst (put (init empty_store) ''k'' ''v'' (Some ''lease-0''))) = []"
    by (simp_all add: start)
  moreover from inst2 distinct1
  have "lease_keys_distinct
     (fst (add_key_to_lease False (run [GrantLease ''lease-1'' 60]) ''lease-1'' ''k''))"
    by blast
  moreover from inst2
  have "run [GrantLease ''lease-1'' 60, AddKeyToLease ''lease-1'' ''k'',
          AddKeyToLease ''lease-1'' ''k''] =
        run [GrantLease ''lease-1'' 60, AddKeyToLease ''lease-1'' ''k'']"
    unfolding steps by blast
  ultimately show ?thesis
    using ahead unknown distinct1 once by simp
qed

text \<open>
  Claim C9. Whenever \<open>delete(k)\<close> and the \<open>put(k, v)\<close> after it both return, they return
  the next two revisions, \<open>k\<close> is absent between them, and the entry \<open>get(k)\<close> returns
  afterwards has version 1 and \<open>create_revision\<close> equal to its own \<open>mod_revision\<close>, the
  revision of that put. On a store whose counter is ahead of its tables both return.
\<close>

theorem put_after_delete_starts_over:
  "(snd (delete st k None) = Inr r1 \<and> snd (put (fst (delete st k None)) k v None) = Inr r2 \<longrightarrow>
      r1 = revision st + 1 \<and> r2 = revision st + 2 \<and>
      get (fst (delete st k None)) k None = None \<and>
      (\<exists>e. get (fst (put (fst (delete st k None)) k v None)) k None = Some e \<and>
           val e = v \<and> version e = 1 \<and> create_revision e = r2 \<and> mod_revision e = r2)) \<and>
   (counter_ahead st \<longrightarrow>
      snd (delete st k None) = Inr (revision st + 1) \<and>
      snd (put (fst (delete st k None)) k v None) = Inr (revision st + 2))"
proof (intro conjI impI)
  let ?d = "fst (delete st k None)"
  let ?p = "fst (put ?d k v None)"
  have rev_d: "revision ?d = revision st + 1"
    by (rule delete_revision)
  {
    assume both: "snd (delete st k None) = Inr r1 \<and> snd (put ?d k v None) = Inr r2"
    then have ret_d: "snd (delete st k None) = Inr r1" and ret_p: "snd (put ?d k v None) = Inr r2"
      by simp_all
    show "r1 = revision st + 1"
      using ret_d by (rule delete_returns)
    show r2: "r2 = revision st + 2"
      using put_returns(2) [OF ret_p] by (simp add: rev_d)
    have live_d: "live_rows ?d k = []"
      using ret_d by (rule live_rows_after_delete)
    show "get ?d k None = None"
      using ret_d by (rule get_after_delete_absent)
    have "kv_entries ?p = kv_entries ?d @ [put_row ?d k v None]"
      using put_returns(1) [OF ret_p] by (simp add: put_done_def)
    then have "live_rows ?p k = [put_row ?d k v None]"
      using live_d by (simp add: live_rows_def put_row_def)
    then have "get ?p k None = Some (KVEntry.truncate (put_row ?d k v None))"
      by (simp add: get_def)
    then show "\<exists>e. get ?p k None = Some e \<and> val e = v \<and> version e = 1 \<and>
        create_revision e = r2 \<and> mod_revision e = r2"
      by (simp add: KVEntry.truncate_def put_row_def live_d rev_d r2)
  }
  {
    assume ahead: "counter_ahead st"
    then show "snd (delete st k None) = Inr (revision st + 1)"
      by (simp add: delete_single_ahead)
    from ahead have "counter_ahead ?d" by (rule delete_counter_ahead)
    from put_None_ahead [OF this, of k v]
    show "snd (put ?d k v None) = Inr (revision st + 2)"
      by (simp add: rev_d)
  }
qed

text \<open>
  Scenario 2 of the specification: \<open>put("a","1")\<close> returns 1, \<open>delete("a")\<close> returns 2,
  \<open>get("a")\<close> is absent, \<open>put("a","3")\<close> returns 3 and \<open>get("a")\<close> has version 1,
  \<open>create_revision\<close> 3 and \<open>mod_revision\<close> 3.
\<close>

theorem put_after_delete_starts_over_witness:
  "snd (put (init empty_store) ''a'' ''1'' None) = Inr 1 \<and>
   snd (delete (run [Put ''a'' ''1'' None]) ''a'' None) = Inr 2 \<and>
   get (run [Put ''a'' ''1'' None, Delete ''a'' None]) ''a'' None = None \<and>
   snd (put (run [Put ''a'' ''1'' None, Delete ''a'' None]) ''a'' ''3'' None) = Inr 3 \<and>
   get (run [Put ''a'' ''1'' None, Delete ''a'' None, Put ''a'' ''3'' None]) ''a'' None =
     Some \<lparr>key = ''a'', val = ''3'', version = 1, create_revision = 3, mod_revision = 3,
           lease_id = None, created_at = 0, modified_at = 0\<rparr> \<and>
   counter_ahead (run [Put ''a'' ''1'' None])"
proof -
  have ahead: "counter_ahead (run [Put ''a'' ''1'' None])"
    by (rule run_counter_ahead) simp
  have first: "snd (put (init empty_store) ''a'' ''1'' None) = Inr 1"
    by (simp add: run_eval)
  have rev1: "revision (run [Put ''a'' ''1'' None]) = 1"
    by (simp add: run_eval)
  have steps:
    "run [Put ''a'' ''1'' None, Delete ''a'' None] =
       fst (delete (run [Put ''a'' ''1'' None]) ''a'' None)"
    "run [Put ''a'' ''1'' None, Delete ''a'' None, Put ''a'' ''3'' None] =
       fst (put (fst (delete (run [Put ''a'' ''1'' None]) ''a'' None)) ''a'' ''3'' None)"
    by (simp_all add: run_def)
  have last:
    "get (run [Put ''a'' ''1'' None, Delete ''a'' None, Put ''a'' ''3'' None]) ''a'' None =
       Some \<lparr>key = ''a'', val = ''3'', version = 1, create_revision = 3, mod_revision = 3,
             lease_id = None, created_at = 0, modified_at = 0\<rparr>"
    by (simp add: run_eval)
  note inst = put_after_delete_starts_over [of "run [Put ''a'' ''1'' None]" "''a''" 2 "''3''" 3]
  from inst ahead
  have returns: "snd (delete (run [Put ''a'' ''1'' None]) ''a'' None) = Inr 2"
    "snd (put (fst (delete (run [Put ''a'' ''1'' None]) ''a'' None)) ''a'' ''3'' None) = Inr 3"
    by (simp_all add: rev1)
  with inst have "get (fst (delete (run [Put ''a'' ''1'' None]) ''a'' None)) ''a'' None = None"
    by blast
  with first returns last ahead show ?thesis
    by (simp add: steps)
qed

text \<open>
  Claim C10. Every row \<open>put\<close> writes has \<open>create_revision\<close> and \<open>mod_revision\<close> both equal
  to the revision \<open>put\<close> returns; so in every state a history of calls reaches from the
  empty database, every entry that \<open>get\<close>, \<open>get_prefix\<close> or \<open>list_revision_history\<close>
  returns has \<open>create_revision = mod_revision\<close>.
\<close>

theorem create_revision_is_mod_revision:
  "(snd (put st k v lease) = Inr r \<longrightarrow>
      (\<exists>row. kv_entries (fst (put st k v lease)) = kv_entries st @ [row] \<and>
             key row = k \<and> create_revision row = r \<and> mod_revision row = r)) \<and>
   (get (run cs) k' at = Some e \<longrightarrow> create_revision e = mod_revision e) \<and>
   (\<forall>e \<in> set (get_prefix (run cs) p). create_revision e = mod_revision e) \<and>
   (\<forall>e \<in> set (list_revision_history (run cs) k' limit).
      create_revision e = mod_revision e)"
proof -
  have rows: "\<forall>r \<in> set (kv_entries (run cs)). create_revision r = mod_revision r"
    using run_rows_created_at_mod [of cs] by (simp add: rows_created_at_mod_def)
  have "\<exists>row. kv_entries (fst (put st k v lease)) = kv_entries st @ [row] \<and>
          key row = k \<and> create_revision row = r \<and> mod_revision row = r"
    if "snd (put st k v lease) = Inr r"
    using put_new_row [OF that] by blast
  moreover have "create_revision e = mod_revision e" if "get (run cs) k' at = Some e"
    using get_mem [OF that] rows by (auto simp: truncate_fields)
  moreover have "create_revision e = mod_revision e" if "e \<in> set (get_prefix (run cs) p)" for e
    using get_prefix_mem [OF that] rows by (auto simp: truncate_fields)
  moreover have "create_revision e = mod_revision e"
    if "e \<in> set (list_revision_history (run cs) k' limit)" for e
    using list_revision_history_mem [OF that] rows by (auto simp: truncate_fields)
  ultimately show ?thesis by blast
qed

text \<open>The same on the history \<open>put("a","1")\<close>, \<open>put("a","2")\<close>.\<close>

theorem create_revision_is_mod_revision_witness:
  "snd (put (init empty_store) ''a'' ''1'' None) = Inr 1 \<and>
   get (run [Put ''a'' ''1'' None, Put ''a'' ''2'' None]) ''a'' None =
     Some \<lparr>key = ''a'', val = ''2'', version = 2, create_revision = 2, mod_revision = 2,
           lease_id = None, created_at = 0, modified_at = 0\<rparr> \<and>
   map create_revision (get_prefix (run [Put ''a'' ''1'' None, Put ''a'' ''2'' None]) ''a'') =
     [1, 2] \<and>
   map mod_revision (get_prefix (run [Put ''a'' ''1'' None, Put ''a'' ''2'' None]) ''a'') =
     [1, 2] \<and>
   map create_revision
     (list_revision_history (run [Put ''a'' ''1'' None, Put ''a'' ''2'' None]) ''a'' 10) =
     [2, 1] \<and>
   map mod_revision
     (list_revision_history (run [Put ''a'' ''1'' None, Put ''a'' ''2'' None]) ''a'' 10) =
     [2, 1]"
  using create_revision_is_mod_revision
    [of "init empty_store" "''a''" "''1''" None 1
        "[Put ''a'' ''1'' None, Put ''a'' ''2'' None]" "''a''" None
        "\<lparr>key = ''a'', val = ''2'', version = 2, create_revision = 2, mod_revision = 2,
           lease_id = None, created_at = 0, modified_at = 0\<rparr>" "''a''" 10]
  by (simp add: run_eval get_prefix_def list_revision_history_def)

end
